theory Spec2Isabelle
  imports Main "HOL-Library.Sublist"
begin

section \<open>Streams, buffers and errors\<close>

text \<open>
  Bytes are modelled by \<^typ>\<open>char\<close> (the 8-bit characters of HOL), so that a Go
  \<^verbatim>\<open>[]byte\<close> is a \<^typ>\<open>string\<close> and the byte strings of the specification can be
  written as literals.

  Go's \<^verbatim>\<open>int\<close> and \<^verbatim>\<open>int64\<close> values that may be compared with a caller-supplied
  \<^verbatim>\<open>Offset\<close> or \<^verbatim>\<open>Size\<close> are integers; counts and indices that the code only
  ever increases from zero (\<^verbatim>\<open>n\<close>, \<^verbatim>\<open>m\<close>, \<^verbatim>\<open>i\<close>, \<^verbatim>\<open>do\<close>, slice lengths) are
  naturals. All positions that occur are bounded by the length of the source or of an
  edit, far below \<open>2^63\<close>, so no wrap-around is modelled.
\<close>

type_synonym byte = char

datatype error = EOF | ErrUnexpectedEOF | ErrShortWrite | Panic

text \<open>
  The source stream \<^verbatim>\<open>r io.Reader\<close> is an in-memory reader over the bytes that are
  still unread (Go's \<^verbatim>\<open>bytes.Reader\<close>): \<^verbatim>\<open>Read(b)\<close> reports \<^verbatim>\<open>0, io.EOF\<close> when nothing is
  left, and otherwise copies \<open>min (len b) (len rest)\<close> bytes and reports no error.
  The result is the bytes stored into \<^verbatim>\<open>b\<close>, the error and the new rest.
\<close>

definition bytes_Read :: "byte list \<Rightarrow> nat \<Rightarrow> byte list \<times> error option \<times> byte list" where
  "bytes_Read s k = (if s = [] then ([], Some EOF, s) else (take k s, None, drop k s))"

text \<open>
  Storing the bytes \<open>bs\<close> into a buffer from index \<open>pos\<close> on. Every caller stores at most
  \<open>length buf - pos\<close> bytes.
\<close>

definition store :: "byte list \<Rightarrow> nat \<Rightarrow> byte list \<Rightarrow> byte list" where
  "store buf pos bs = take pos buf @ bs @ drop (pos + length bs) buf"

section \<open>FileOp, FileOps and the opreader\<close>

record FileOp =
  Offset :: int
  Size :: int
  Data :: "byte list"

type_synonym FileOps = "FileOp list"

record opreader =
  r :: "byte list"
  ops :: "FileOp list"
  ro :: int
  i :: nat
  do :: nat
  tmp :: "byte list"

text \<open>\<^verbatim>\<open>func (ops FileOps) Reader(r io.Reader) io.Reader\<close>\<close>

definition Reader :: "FileOps \<Rightarrow> byte list \<Rightarrow> opreader" where
  "Reader os s = \<lparr>r = s, ops = os, ro = 0, i = 0, do = 0, tmp = replicate 4096 (CHR 0x00)\<rparr>"

text \<open>
  The caller's slice \<^verbatim>\<open>p\<close> is modelled by the whole buffer \<open>buf\<close> and the count \<open>n\<close>:
  the code advances \<^verbatim>\<open>p\<close> and \<^verbatim>\<open>n\<close> together (\<^verbatim>\<open>p, n = p[m:], n+m\<close>), so the current
  \<^verbatim>\<open>p\<close> is always \<open>drop n buf\<close>.

  The first step of an iteration of \<^verbatim>\<open>Read\<close>: the bytes of the source before the offset
  of the edit \<open>e\<close>.
\<close>

definition preface :: "FileOp \<Rightarrow> byte list \<Rightarrow> nat \<Rightarrow> opreader \<Rightarrow> byte list \<times> nat \<times> opreader \<times> error option" where
  "preface e buf n st =
     (let ncopy = Offset e - ro st in
      if ncopy > 0 then
        let q = (if int (length buf - n) > ncopy then nat ncopy else length buf - n);
            (bs, err, s') = bytes_Read (r st) q
        in (store buf n bs, n + length bs, st\<lparr>r := s', ro := ro st + int (length bs)\<rparr>, err)
      else (buf, n, st, None))"

text \<open>The second step: \<^verbatim>\<open>m := copy(p, o.Data[r.do:])\<close>.\<close>

definition yield :: "FileOp \<Rightarrow> byte list \<Rightarrow> nat \<Rightarrow> opreader \<Rightarrow> byte list \<times> nat \<times> opreader" where
  "yield e buf n st =
     (let m = min (length buf - n) (length (Data e) - do st)
      in (store buf n (take m (drop (do st) (Data e))), n + m, st\<lparr>do := do st + m\<rparr>))"

text \<open>
  The third step, the loop that discards the replaced bytes of the source. The scratch
  slice is the caller's \<^verbatim>\<open>p\<close> when \<open>useP\<close> holds, and \<^verbatim>\<open>r.tmp\<close> otherwise.
\<close>

partial_function (option) discard ::
  "bool \<Rightarrow> nat \<Rightarrow> int \<Rightarrow> error option \<Rightarrow> byte list \<Rightarrow> opreader \<Rightarrow> (byte list \<times> opreader \<times> error option) option" where
  "discard useP n endo err buf st =
     (if ro st < endo \<and> err = None then
        let m0 = nat (endo - ro st);
            cap = (if useP then length buf - n else length (tmp st));
            m = (if cap < m0 then cap else m0);
            (bs, err', s') = bytes_Read (r st) m
        in discard useP n endo err'
             (if useP then store buf n bs else buf)
             (st\<lparr>r := s', ro := ro st + int (length bs),
                 tmp := (if useP then tmp st else store (tmp st) 0 bs)\<rparr>)
      else Some (buf, st, err))"

declare discard.simps [code]

text \<open>
  The loop of \<^verbatim>\<open>(*opreader).Read\<close>. A result is the caller's buffer, the count \<^verbatim>\<open>n\<close>,
  the error and the reader; \<open>None\<close> means that the call does not return.
  Slicing \<^verbatim>\<open>o.Data[r.do:]\<close> panics when \<^verbatim>\<open>r.do\<close> exceeds the length of the data.
\<close>

partial_function (option) Read_loop ::
  "byte list \<Rightarrow> nat \<Rightarrow> opreader \<Rightarrow> (byte list \<times> nat \<times> error option \<times> opreader) option" where
  "Read_loop buf n st =
     (if i st < length (ops st) then
        let e = ops st ! i st in
        case preface e buf n st of (buf1, n1, st1, err1) \<Rightarrow>
          if err1 \<noteq> None then Some (buf1, n1, err1, st1)
          else if ro st1 < Offset e then Some (buf1, n1, None, st1)
          else if length (Data e) < do st1 then Some (buf1, n1, Some Panic, st1)
          else case yield e buf1 n1 st1 of (buf2, n2, st2) \<Rightarrow>
            if do st2 < length (Data e) then Some (buf2, n2, None, st2)
            else Option.bind
                   (discard (length (tmp st2) < length buf2 - n2) n2 (Offset e + Size e) None buf2 st2)
                   (\<lambda>(buf3, st3, err3).
                      let st4 = (if ro st3 = Offset e + Size e then st3\<lparr>i := i st3 + 1, do := 0\<rparr> else st3)
                      in if err3 \<noteq> None then Some (buf3, n2, err3, st4)
                         else Read_loop buf3 n2 st4)
      else
        case bytes_Read (r st) (length buf - n) of (bs, err, s') \<Rightarrow>
          Some (store buf n bs, n + length bs, err, st\<lparr>r := s'\<rparr>))"

declare Read_loop.simps [code]

text \<open>\<^verbatim>\<open>func (r *opreader) Read(p []byte) (n int, err error)\<close>\<close>

definition Read :: "opreader \<Rightarrow> byte list \<Rightarrow> (byte list \<times> nat \<times> error option \<times> opreader) option" where
  "Read st p = Read_loop p 0 st"

text \<open>
  \<^verbatim>\<open>io.Copy(w, src)\<close> of the Go library with its buffer made explicit
  (\<^verbatim>\<open>io.CopyBuffer\<close>): it calls \<^verbatim>\<open>Read\<close> until an error, writes the \<^verbatim>\<open>nr\<close> bytes of
  every call, and reports \<^verbatim>\<open>io.EOF\<close> as success. The destination \<open>w\<close> is a plain
  \<^verbatim>\<open>io.Writer\<close> that accepts every write, so that \<^verbatim>\<open>io.Copy\<close> runs this loop; it is
  modelled by the bytes written so far.
\<close>

partial_function (option) copyBuffer ::
  "byte list \<Rightarrow> opreader \<Rightarrow> byte list \<Rightarrow> (byte list \<times> error option) option" where
  "copyBuffer w st buf =
     Option.bind (Read st buf)
       (\<lambda>(buf', nr, er, st').
          let w' = (if nr > 0 then w @ take nr buf' else w)
          in case er of
               Some e \<Rightarrow> Some (w', if e = EOF then None else Some e)
             | None \<Rightarrow> copyBuffer w' st' buf')"

declare copyBuffer.simps [code]

text \<open>
  \<^verbatim>\<open>func (ops FileOps) Copy(w io.Writer, r io.Reader)\<close> is \<^verbatim>\<open>io.Copy(w, ops.Reader(r))\<close>,
  which allocates a buffer of 32 KiB. The result is the content of \<open>w\<close> (whose length is
  \<^verbatim>\<open>written\<close>) and the error.
\<close>

definition Copy :: "FileOps \<Rightarrow> byte list \<Rightarrow> (byte list \<times> error option) option" where
  "Copy os s = copyBuffer [] (Reader os s) (replicate 32768 (CHR 0x00))"


text \<open>
  The unexported sibling \<^verbatim>\<open>func (ops FileOps) xCopy(w io.Writer, r io.Reader)\<close>, with
  \<^verbatim>\<open>io.CopyN\<close> on the in-memory source: it copies \<open>min k (len rest)\<close> bytes and reports
  \<^verbatim>\<open>io.EOF\<close> when these are fewer than \<open>k\<close>. The arguments are the destination, the
  source and the local \<^verbatim>\<open>read\<close>.
\<close>

definition CopyN :: "byte list \<Rightarrow> int \<Rightarrow> byte list \<times> byte list \<times> error option" where
  "CopyN s k =
     (let m = min (nat k) (length s)
      in (take m s, drop m s, if int m < k then Some EOF else None))"

fun xCopy :: "byte list \<Rightarrow> byte list \<Rightarrow> int \<Rightarrow> FileOp list \<Rightarrow> byte list \<times> error option" where
  "xCopy w s rd [] = (w @ s, None)"
| "xCopy w s rd (e # es) =
     (let ncopy = Offset e - rd;
          (bs, s1, err1) = (if ncopy > 0 then CopyN s ncopy else ([], s, None));
          w1 = w @ bs;
          rd1 = rd + int (length bs)
      in if err1 \<noteq> None then (w1, if err1 = Some EOF then Some ErrUnexpectedEOF else err1)
         else
           let w2 = (if length (Data e) \<noteq> 0 then w1 @ Data e else w1);
               (ds, s2, err2) = (if Size e \<noteq> 0 then CopyN s1 (Size e) else ([], s1, None))
           in if err2 \<noteq> None then (w2, err2)
              else xCopy w2 s2 (rd1 + int (length ds)) es)"

text \<open>\<^verbatim>\<open>func zerofill(p []byte, maxfill int) int\<close>: the buffer after the call and the result.\<close>

definition zerofill :: "byte list \<Rightarrow> int \<Rightarrow> byte list \<times> int" where
  "zerofill p maxfill =
     (let n = (if int (length p) < maxfill then int (length p) else maxfill)
      in (fold (\<lambda>k q. q[k := CHR 0x00]) [0..<length p] p, n))"

section \<open>The Exif copy\<close>

text \<open>The package-level variables of lines 43 to 47, which \<^verbatim>\<open>Copy\<close> reads and assigns.\<close>

record globals =
  jfifChunkHeader :: "byte list"
  jfxxChunkHeader :: "byte list"
  exifChunkHeader :: "byte list"

definition globals0 :: globals where
  "globals0 =
     \<lparr>jfifChunkHeader = [CHR 0xFF, CHR 0xE0] @ ''--JFIF'' @ [CHR 0x00],
      jfxxChunkHeader = [CHR 0xFF, CHR 0xE0] @ ''--JFXX'' @ [CHR 0x00],
      exifChunkHeader = [CHR 0xFF, CHR 0xE1] @ ''--Exif'' @ [CHR 0x00, CHR 0x00]\<rparr>"

definition cmpChunkHeader :: "byte list \<Rightarrow> byte list \<Rightarrow> bool" where
  "cmpChunkHeader p h =
     (if length p < length h then False
      else list_all (\<lambda>k. k = 2 \<or> k = 3 \<or> p ! k = h ! k) [0..<length h])"

text \<open>
  The JPEG scanner \<^verbatim>\<open>xjpeg.Scanner\<close> is not part of the sources at hand; it is a
  parameter of the model. \<open>segs\<close> lists what the successive calls of \<^verbatim>\<open>j.ReadChunk()\<close>
  deliver, one entry for each \<^verbatim>\<open>j.Next()\<close> that is true; \<open>j_Err k\<close> and \<open>j_Reader k\<close> are
  the results of \<^verbatim>\<open>j.Err()\<close> and the content of \<^verbatim>\<open>j.Reader()\<close> once \<open>k\<close> chunks have been
  read.
\<close>

record scanner =
  segs :: "(error + byte list) list"
  j_Err :: "nat \<Rightarrow> error option"
  j_Reader :: "nat \<Rightarrow> byte list"

text \<open>
  The local variables of \<^verbatim>\<open>Copy\<close> that its loop uses; a \<^verbatim>\<open>nil\<close> slice is \<open>None\<close>, and
  \<open>nread\<close> counts the chunks read from the scanner.
\<close>

record locals =
  chunks :: "byte list list"
  jfifChunk :: "byte list option"
  jfxxChunk :: "byte list option"
  hasExif :: bool
  has :: nat
  nread :: nat

definition locals0 :: locals where
  "locals0 = \<lparr>chunks = [], jfifChunk = None, jfxxChunk = None, hasExif = False, has = 0, nread = 0\<rparr>"

text \<open>The loop \<^verbatim>\<open>for has < 3 && j.Next()\<close> of lines 75 to 95.\<close>

fun scan :: "globals \<Rightarrow> locals \<Rightarrow> (error + byte list) list \<Rightarrow> globals \<times> locals \<times> error option" where
  "scan g l [] = (g, l, None)"
| "scan g l (item # items) =
     (if has l < 3 then
        (case item of
           Inl err \<Rightarrow> (g, l\<lparr>nread := nread l + 1\<rparr>, Some err)
         | Inr chunk \<Rightarrow>
             if jfifChunk l = None \<and> cmpChunkHeader chunk (jfifChunkHeader g) then
               scan (g\<lparr>jfifChunkHeader := chunk\<rparr>) (l\<lparr>has := has l + 1, nread := nread l + 1\<rparr>) items
             else if jfxxChunk l = None \<and> cmpChunkHeader chunk (jfxxChunkHeader g) then
               scan (g\<lparr>jfxxChunkHeader := chunk\<rparr>) (l\<lparr>has := has l + 1, nread := nread l + 1\<rparr>) items
             else if \<not> hasExif l \<and> cmpChunkHeader chunk (exifChunkHeader g) then
               scan g (l\<lparr>hasExif := True, has := has l + 1, nread := nread l + 1\<rparr>) items
             else
               scan g (l\<lparr>chunks := chunks l @ [chunk], nread := nread l + 1\<rparr>) items)
      else (g, l, None))"

text \<open>
  \<^verbatim>\<open>func (w *errw) write(p []byte)\<close> on a destination that accepts every write, so that
  \<^verbatim>\<open>w.err\<close> stays \<^verbatim>\<open>nil\<close>; the destination is modelled by the bytes written so far.
\<close>

definition errw_write :: "byte list \<Rightarrow> byte list option \<Rightarrow> byte list" where
  "errw_write w p = (case p of None \<Rightarrow> w | Some bs \<Rightarrow> w @ bs)"

text \<open>
  \<^verbatim>\<open>func Copy(w io.Writer, r io.Reader, x *Exif) error\<close> of package \<^verbatim>\<open>exif\<close>. The result
  is the package-level variables after the call, the content of \<open>w\<close> and the error.
  Parameters stand for the code that is not at hand: \<open>nj\<close> is the result of
  \<^verbatim>\<open>xjpeg.NewScanner(r)\<close>; \<open>x\<close> is \<open>None\<close> for a \<^verbatim>\<open>nil\<close> pointer and otherwise the result
  of \<^verbatim>\<open>x.EncodeBytes()\<close>; \<open>WriteChunk\<close> gives the bytes that \<^verbatim>\<open>xjpeg.WriteChunk\<close> writes
  and its error. Indexing \<^verbatim>\<open>chunks[0]\<close> panics when no chunk was collected.
\<close>

definition exif_Copy ::
  "globals \<Rightarrow> byte list \<Rightarrow> error + scanner \<Rightarrow> (error + byte list option) option \<Rightarrow>
   (byte \<Rightarrow> byte list \<Rightarrow> byte list \<times> error option) \<Rightarrow> globals \<times> byte list \<times> error option" where
  "exif_Copy g w nj x WriteChunk =
     (case nj of
        Inl err \<Rightarrow> (g, w, Some err)
      | Inr j \<Rightarrow>
          (case (case x of None \<Rightarrow> Inr None | Some enc \<Rightarrow> enc) of
             Inl err \<Rightarrow> (g, w, Some err)
           | Inr exifdata \<Rightarrow>
               (case scan g locals0 (segs j) of
                  (g1, l, Some err) \<Rightarrow> (g1, w, Some err)
                | (g1, l, None) \<Rightarrow>
                    (case j_Err j (nread l) of
                       Some err \<Rightarrow> (g1, w, Some err)
                     | None \<Rightarrow>
                         (case chunks l of
                            [] \<Rightarrow> (g1, w, Some Panic)
                          | c0 # cs \<Rightarrow>
                              let w1 = errw_write (errw_write (errw_write w (Some c0)) (jfifChunk l)) (jfxxChunk l);
                                  (w2, err) = (case exifdata of
                                                 None \<Rightarrow> (w1, None)
                                               | Some d \<Rightarrow> (case WriteChunk (CHR 0xE1) d of
                                                             (bs, err) \<Rightarrow> (w1 @ bs, err)))
                              in if err \<noteq> None then (g1, w2, err)
                                 else (g1, foldl (\<lambda>a c. errw_write a (Some c)) w2 cs @ j_Reader j (nread l), None))))))"

section \<open>What a patch is expected to produce\<close>

text \<open>
  The output that the specification expects from the edits \<open>es\<close>, when the source is at
  position \<open>pos\<close> with the bytes \<open>s\<close> still unread and \<open>d\<close> bytes of the data of the first
  edit already produced: the bytes before the edit, its data, and the patch of what
  follows the replaced bytes.
\<close>

fun patched :: "FileOp list \<Rightarrow> int \<Rightarrow> nat \<Rightarrow> byte list \<Rightarrow> byte list" where
  "patched [] pos d s = s"
| "patched (e # es) pos d s =
     take (nat (Offset e - pos)) s @ drop d (Data e) @
     patched es (Offset e + Size e) 0 (drop (nat (Offset e + Size e - pos)) s)"

text \<open>
  The edits are in ascending order and disjoint (each begins at or after the end of the one
  before, and after \<open>pos\<close>), have non-negative sizes, and the source reaches the end of
  the last one.
\<close>

fun fits :: "FileOp list \<Rightarrow> int \<Rightarrow> nat \<Rightarrow> byte list \<Rightarrow> bool" where
  "fits [] pos d s = True"
| "fits (e # es) pos d s =
     (pos \<le> Offset e \<and> 0 \<le> Size e \<and> d \<le> length (Data e) \<and>
      Offset e + Size e - pos \<le> int (length s) \<and>
      fits es (Offset e + Size e) 0 (drop (nat (Offset e + Size e - pos)) s))"

definition pending :: "opreader \<Rightarrow> byte list" where
  "pending st = patched (drop (i st) (ops st)) (ro st) (do st) (r st)"

definition ready :: "opreader \<Rightarrow> bool" where
  "ready st \<longleftrightarrow> fits (drop (i st) (ops st)) (ro st) (do st) (r st) \<and> tmp st \<noteq> []"

text \<open>
  What a call of \<^verbatim>\<open>Read\<close> that starts with \<open>n\<close> bytes in \<open>buf\<close> and has \<open>out\<close> left to
  produce achieves: it fills the buffer as far as \<open>out\<close> reaches.
\<close>

definition reads ::
  "byte list \<Rightarrow> nat \<Rightarrow> byte list \<Rightarrow> byte list \<times> nat \<times> error option \<times> opreader \<Rightarrow> bool" where
  "reads buf n out res =
     (case res of (buf', n', err, st') \<Rightarrow>
        length buf' = length buf \<and> n' = n + min (length buf - n) (length out) \<and>
        take n' buf' = take n buf @ take (n' - n) out \<and>
        pending st' = drop (n' - n) out \<and> ready st' \<and>
        (err = None \<or> err = Some EOF) \<and>
        (err = Some EOF \<longrightarrow> length out \<le> length buf - n) \<and>
        (out = [] \<longrightarrow> err = Some EOF))"


text \<open>
  The ordering invariant of an edit set in the words of the specification: the offsets
  strictly increase across successive edits and no range \<open>[offset, offset + size)\<close>
  overlaps the next one.
\<close>

fun ascending_disjoint :: "FileOp list \<Rightarrow> bool" where
  "ascending_disjoint [] = True"
| "ascending_disjoint [e] = True"
| "ascending_disjoint (e # e' # es) =
     (Offset e < Offset e' \<and> Offset e + Size e \<le> Offset e' \<and> ascending_disjoint (e' # es))"

text \<open>
  What the loop of \<^verbatim>\<open>Copy\<close> leaves as it is or changes in a fixed way: \<^verbatim>\<open>jfifChunk\<close> and
  \<^verbatim>\<open>jfxxChunk\<close> are never assigned, a header variable keeps its value or holds a chunk
  that was read, and the chunks collected are a subsequence of the chunks read.
\<close>

definition scan_keeps :: "globals \<Rightarrow> locals \<Rightarrow> (error + byte list) list \<Rightarrow> globals \<Rightarrow> locals \<Rightarrow> bool" where
  "scan_keeps g l items g' l' \<longleftrightarrow>
     jfifChunk l' = jfifChunk l \<and> jfxxChunk l' = jfxxChunk l \<and>
     (jfifChunkHeader g' = jfifChunkHeader g \<or> Inr (jfifChunkHeader g') \<in> set items) \<and>
     (jfxxChunkHeader g' = jfxxChunkHeader g \<or> Inr (jfxxChunkHeader g') \<in> set items) \<and>
     nread l \<le> nread l' \<and>
     (\<exists>sub. chunks l' = chunks l @ sub \<and> subseq (map Inr sub) items)"

text \<open>
  A small JPEG stream for the examples: the start marker, a JFIF segment, a quantisation
  table segment, and image data that the scanner leaves unread.
\<close>

definition soi_chunk :: "byte list" where "soi_chunk = [CHR 0xFF, CHR 0xD8]"
definition jfif_chunk :: "byte list" where
  "jfif_chunk = [CHR 0xFF, CHR 0xE0, CHR 0x00, CHR 0x07] @ ''JFIF'' @ [CHR 0x00]"
definition dqt_chunk :: "byte list" where "dqt_chunk = [CHR 0xFF, CHR 0xDB, CHR 0x00, CHR 0x02]"
definition jpeg_scanner :: scanner where
  "jpeg_scanner = \<lparr>segs = [Inr soi_chunk, Inr jfif_chunk, Inr dqt_chunk], j_Err = (\<lambda>k. None), j_Reader = (\<lambda>k. ''img'')\<rparr>"

section \<open>The steps of Read\<close>

lemma store_length: "pos + length bs \<le> length buf \<Longrightarrow> length (store buf pos bs) = length buf"
  by (simp add: store_def)

lemma store_take: "pos \<le> length buf \<Longrightarrow> take (pos + length bs) (store buf pos bs) = take pos buf @ bs"
  by (simp add: store_def)

lemma store_take_le: "k \<le> pos \<Longrightarrow> pos \<le> length buf \<Longrightarrow> take k (store buf pos bs) = take k buf"
  by (simp add: store_def)

lemma store_nil: "store buf pos [] = buf"
  by (simp add: store_def)

lemma preface_spec:
  assumes "ro st \<le> Offset e" "Offset e - ro st \<le> int (length (r st))" "n \<le> length buf"
  shows "preface e buf n st =
           (store buf n (take (min (length buf - n) (nat (Offset e - ro st))) (r st)),
            n + min (length buf - n) (nat (Offset e - ro st)),
            st\<lparr>r := drop (min (length buf - n) (nat (Offset e - ro st))) (r st),
               ro := ro st + int (min (length buf - n) (nat (Offset e - ro st)))\<rparr>, None)"
proof (cases "Offset e - ro st > 0")
  case True
  then have ne: "r st \<noteq> []" using assms by auto
  let ?q = "if int (length buf - n) > Offset e - ro st then nat (Offset e - ro st) else length buf - n"
  have q: "?q = min (length buf - n) (nat (Offset e - ro st))" by auto
  have len: "length (take ?q (r st)) = ?q" using assms True by auto
  show ?thesis
    unfolding preface_def Let_def using True ne len
    by (simp add: bytes_Read_def q min_def)
next
  case False
  then have "nat (Offset e - ro st) = 0" by simp
  then show ?thesis using False
    by (simp add: preface_def store_nil)
qed

lemma discard_spec:
  assumes "ro st \<le> endo" "endo - ro st \<le> int (length (r st))"
    "useP \<longrightarrow> n < length buf" "\<not> useP \<longrightarrow> tmp st \<noteq> []"
  shows "\<exists>buf' st'. discard useP n endo None buf st = Some (buf', st', None) \<and>
           length buf' = length buf \<and> take n buf' = take n buf \<and>
           r st' = drop (nat (endo - ro st)) (r st) \<and> ro st' = endo \<and>
           ops st' = ops st \<and> i st' = i st \<and> do st' = do st \<and>
           length (tmp st') = length (tmp st)"
  using assms
proof (induction "nat (endo - ro st)" arbitrary: buf st rule: less_induct)
  case less
  show ?case
  proof (cases "ro st < endo")
    case False
    with less.prems have "ro st = endo" by simp
    then show ?thesis by (subst discard.simps) simp
  next
    case True
    define cap where "cap = (if useP then length buf - n else length (tmp st))"
    define m where "m = (if cap < nat (endo - ro st) then cap else nat (endo - ro st))"
    have cap: "0 < cap" using less.prems by (auto simp: cap_def)
    have m: "0 < m" "m \<le> nat (endo - ro st)" "m \<le> cap" "m \<le> length (r st)"
      using cap True less.prems by (auto simp: m_def)
    have ne: "r st \<noteq> []" using m by auto
    define buf1 where "buf1 = (if useP then store buf n (take m (r st)) else buf)"
    define st1 where "st1 = st\<lparr>r := drop m (r st), ro := ro st + int m,
        tmp := (if useP then tmp st else store (tmp st) 0 (take m (r st)))\<rparr>"
    have step: "discard useP n endo None buf st = discard useP n endo None buf1 st1"
      apply (subst discard.simps)
      using True ne m by (simp add: Let_def bytes_Read_def cap_def[symmetric] m_def[symmetric] buf1_def st1_def min_def)
    have lb: "length buf1 = length buf" "take n buf1 = take n buf"
      using m less.prems by (auto simp: buf1_def cap_def store_length store_take_le split: if_splits)
    have lt: "length (tmp st1) = length (tmp st)"
      using m by (auto simp: st1_def cap_def store_length split: if_splits)
    have "\<exists>buf' st'. discard useP n endo None buf1 st1 = Some (buf', st', None) \<and>
           length buf' = length buf1 \<and> take n buf' = take n buf1 \<and>
           r st' = drop (nat (endo - ro st1)) (r st1) \<and> ro st' = endo \<and>
           ops st' = ops st1 \<and> i st' = i st1 \<and> do st' = do st1 \<and>
           length (tmp st') = length (tmp st1)"
    proof (rule less.hyps)
      show "nat (endo - ro st1) < nat (endo - ro st)" using m True by (simp add: st1_def)
      show "ro st1 \<le> endo" using m by (simp add: st1_def)
      show "endo - ro st1 \<le> int (length (r st1))" using m less.prems by (simp add: st1_def)
      show "useP \<longrightarrow> n < length buf1" using less.prems lb by simp
      show "\<not> useP \<longrightarrow> tmp st1 \<noteq> []" using less.prems lt by auto
    qed
    then obtain buf' st' where *: "discard useP n endo None buf1 st1 = Some (buf', st', None)"
           "length buf' = length buf1" "take n buf' = take n buf1"
           "r st' = drop (nat (endo - ro st1)) (r st1)" "ro st' = endo"
           "ops st' = ops st1" "i st' = i st1" "do st' = do st1"
           "length (tmp st') = length (tmp st1)" by blast
    have "drop (nat (endo - ro st1)) (r st1) = drop (nat (endo - ro st)) (r st)"
    proof -
      have "m + nat (endo - ro st1) = nat (endo - ro st)" using m by (simp add: st1_def)
      then show ?thesis by (simp add: st1_def add.commute)
    qed
    with * step lb lt show ?thesis by (simp add: st1_def)
  qed
qed


lemma Read_loop_passthrough:
  "\<not> i st < length (ops st) \<Longrightarrow>
   Read_loop buf n st =
     (case bytes_Read (r st) (length buf - n) of (bs, err, s') \<Rightarrow>
        Some (store buf n bs, n + length bs, err, st\<lparr>r := s'\<rparr>))"
  by (subst Read_loop.simps) simp

lemma Read_loop_preface_return:
  assumes "i st < length (ops st)" "e = ops st ! i st" "ro st \<le> Offset e"
    "Offset e - ro st \<le> int (length (r st))" "n \<le> length buf"
    "length buf - n < nat (Offset e - ro st)"
  shows "Read_loop buf n st =
           Some (store buf n (take (length buf - n) (r st)), length buf, None,
                 st\<lparr>r := drop (length buf - n) (r st), ro := ro st + int (length buf - n)\<rparr>)"
proof -
  have k: "min (length buf - n) (nat (Offset e - ro st)) = length buf - n"
    using assms by simp
  define st1 where "st1 = st\<lparr>r := drop (length buf - n) (r st), ro := ro st + int (length buf - n)\<rparr>"
  have p: "preface e buf n st =
      (store buf n (take (length buf - n) (r st)), n + (length buf - n), st1, None)"
    using preface_spec[OF assms(3,4,5)] unfolding k st1_def .
  have lt: "ro st1 < Offset e" using assms by (simp add: st1_def)
  have n: "n + (length buf - n) = length buf" using assms by simp
  show ?thesis
    apply (subst Read_loop.simps)
    using assms(1,2) p lt unfolding n st1_def[symmetric] by (simp add: Let_def)
qed

lemma Read_loop_yield_return:
  assumes "i st < length (ops st)" "e = ops st ! i st" "ro st \<le> Offset e"
    "Offset e - ro st \<le> int (length (r st))" "n \<le> length buf"
    "nc = nat (Offset e - ro st)" "nc \<le> length buf - n"
    "do st \<le> length (Data e)" "length buf - n - nc < length (Data e) - do st"
  shows "Read_loop buf n st =
           Some (store (store buf n (take nc (r st))) (n + nc)
                   (take (length buf - n - nc) (drop (do st) (Data e))),
                 length buf, None,
                 st\<lparr>r := drop nc (r st), ro := Offset e, do := do st + (length buf - n - nc)\<rparr>)"
proof -
  have k: "min (length buf - n) (nat (Offset e - ro st)) = nc"
    using assms by simp
  have ro: "ro st + int nc = Offset e" using assms by simp
  have p: "preface e buf n st =
      (store buf n (take nc (r st)), n + nc, st\<lparr>r := drop nc (r st), ro := Offset e\<rparr>, None)"
    using preface_spec[OF assms(3,4,5)] unfolding k ro .
  define buf1 where "buf1 = store buf n (take nc (r st))"
  define st1 where "st1 = st\<lparr>r := drop nc (r st), ro := Offset e\<rparr>"
  define m where "m = length buf - n - nc"
  have l1: "length buf1 = length buf"
    using assms by (simp add: store_length buf1_def)
  have mm: "min (length buf1 - (n + nc)) (length (Data e) - do st1) = m"
    using assms l1 by (simp add: m_def st1_def)
  have y: "yield e buf1 (n + nc) st1 =
             (store buf1 (n + nc) (take m (drop (do st) (Data e))), n + nc + m, st1\<lparr>do := do st + m\<rparr>)"
    unfolding yield_def Let_def mm by (simp add: st1_def)
  have nn: "n + nc + m = length buf" using assms by (simp add: m_def)
  have lt: "do st + m < length (Data e)" using assms by (simp add: m_def)
  have c1: "\<not> ro st1 < Offset e" "\<not> length (Data e) < do st1"
    using assms by (simp_all add: st1_def)
  show ?thesis
    apply (subst Read_loop.simps)
    using assms(1,2) p c1 y lt unfolding buf1_def[symmetric] st1_def[symmetric] nn m_def[symmetric]
    by (simp add: Let_def st1_def)
qed

lemma Read_loop_next:
  assumes "i st < length (ops st)" "e = ops st ! i st" "ro st \<le> Offset e"
    "n \<le> length buf"
    "nc = nat (Offset e - ro st)" "do st \<le> length (Data e)"
    "nc + (length (Data e) - do st) \<le> length buf - n"
    "0 \<le> Size e" "Offset e + Size e - ro st \<le> int (length (r st))" "tmp st \<noteq> []"
  shows "\<exists>buf3 st4. Read_loop buf n st = Read_loop buf3 (n + nc + (length (Data e) - do st)) st4 \<and>
           length buf3 = length buf \<and>
           take (n + nc + (length (Data e) - do st)) buf3 =
             take n buf @ take nc (r st) @ drop (do st) (Data e) \<and>
           r st4 = drop (nat (Offset e + Size e - ro st)) (r st) \<and>
           ro st4 = Offset e + Size e \<and> ops st4 = ops st \<and> i st4 = Suc (i st) \<and>
           do st4 = 0 \<and> tmp st4 \<noteq> []"
proof -
  have k: "min (length buf - n) (nat (Offset e - ro st)) = nc"
    using assms by simp
  have ro: "ro st + int nc = Offset e" using assms by simp
  have le: "Offset e - ro st \<le> int (length (r st))" using assms by simp
  have ncl: "nc \<le> length (r st)" using assms by simp
  define buf1 where "buf1 = store buf n (take nc (r st))"
  define st1 where "st1 = st\<lparr>r := drop nc (r st), ro := Offset e\<rparr>"
  have p: "preface e buf n st = (buf1, n + nc, st1, None)"
    using preface_spec[OF assms(3) le assms(4)] unfolding k ro buf1_def st1_def .
  have l1: "length buf1 = length buf"
    using assms ncl by (simp add: store_length buf1_def)
  have t1: "take (n + nc) buf1 = take n buf @ take nc (r st)"
    using store_take[of n buf "take nc (r st)"] assms ncl by (simp add: buf1_def)
  define m where "m = length (Data e) - do st"
  define buf2 where "buf2 = store buf1 (n + nc) (drop (do st) (Data e))"
  define st2 where "st2 = st1\<lparr>do := length (Data e)\<rparr>"
  define n2 where "n2 = n + nc + m"
  have mm: "min (length buf1 - (n + nc)) (length (Data e) - do st1) = m"
    using assms l1 by (simp add: m_def st1_def)
  have dm: "do st + m = length (Data e)" "take m (drop (do st) (Data e)) = drop (do st) (Data e)"
    using assms by (simp_all add: m_def)
  have y: "yield e buf1 (n + nc) st1 = (buf2, n2, st2)"
    unfolding yield_def Let_def mm by (simp add: st1_def st2_def buf2_def n2_def dm)
  have l2: "length buf2 = length buf"
    using assms l1 by (simp add: store_length buf2_def)
  have t2: "take n2 buf2 = take n buf @ take nc (r st) @ drop (do st) (Data e)"
    using store_take[of "n + nc" buf1 "drop (do st) (Data e)"] assms l1 t1
    by (simp add: buf2_def n2_def m_def)
  have "\<exists>buf' st'. discard (length (tmp st2) < length buf2 - n2) n2 (Offset e + Size e) None buf2 st2
           = Some (buf', st', None) \<and>
           length buf' = length buf2 \<and> take n2 buf' = take n2 buf2 \<and>
           r st' = drop (nat (Offset e + Size e - ro st2)) (r st2) \<and> ro st' = Offset e + Size e \<and>
           ops st' = ops st2 \<and> i st' = i st2 \<and> do st' = do st2 \<and>
           length (tmp st') = length (tmp st2)"
  proof (rule discard_spec)
    show "ro st2 \<le> Offset e + Size e" using assms by (simp add: st2_def st1_def)
    show "Offset e + Size e - ro st2 \<le> int (length (r st2))"
      using assms by (simp add: st2_def st1_def)
    show "length (tmp st2) < length buf2 - n2 \<longrightarrow> n2 < length buf2" by arith
    show "\<not> length (tmp st2) < length buf2 - n2 \<longrightarrow> tmp st2 \<noteq> []"
      using assms by (simp add: st2_def st1_def)
  qed
  then obtain buf3 st3 where d:
    "discard (length (tmp st2) < length buf2 - n2) n2 (Offset e + Size e) None buf2 st2
           = Some (buf3, st3, None)"
    "length buf3 = length buf2" "take n2 buf3 = take n2 buf2"
    "r st3 = drop (nat (Offset e + Size e - ro st2)) (r st2)" "ro st3 = Offset e + Size e"
    "ops st3 = ops st2" "i st3 = i st2" "do st3 = do st2"
    "length (tmp st3) = length (tmp st2)" by blast
  define st4 where "st4 = st3\<lparr>i := i st3 + 1, do := 0\<rparr>"
  have step: "Read_loop buf n st = Read_loop buf3 n2 st4"
    apply (subst Read_loop.simps)
    using assms(1,2,6) p y d(1,5)
    by (simp add: Let_def st1_def st2_def st4_def)
  have r4: "r st4 = drop (nat (Offset e + Size e - ro st)) (r st)"
  proof -
    have "nat (Size e) + nc = nat (Offset e + Size e - ro st)" using assms by simp
    then show ?thesis using d(4) by (simp add: st4_def st2_def st1_def)
  qed
  have "tmp st4 \<noteq> []" using d(9) assms by (auto simp: st4_def st2_def st1_def)
  with step r4 d l2 t2 show ?thesis
    by (intro exI[of _ buf3] exI[of _ st4]) (simp add: st4_def st2_def st1_def n2_def m_def)
qed


lemma take_min_length: "take (min (length xs) k) xs = take k xs"
  by (simp add: min_def)

lemma drop_min_length: "drop (min (length xs) k) xs = drop k xs"
  by (simp add: min_def)

lemma reads_append:
  assumes "reads buf3 n2 P res" "length buf3 = length buf" "take n2 buf3 = take n buf @ A"
    "n2 = n + length A" "n2 \<le> length buf"
  shows "reads buf n (A @ P) res"
proof -
  obtain buf' n' err st' where res: "res = (buf', n', err, st')" by (cases res) auto
  from assms(1) have a:
    "length buf' = length buf3" "n' = n2 + min (length buf3 - n2) (length P)"
    "take n' buf' = take n2 buf3 @ take (n' - n2) P"
    "pending st' = drop (n' - n2) P" "ready st'" "err = None \<or> err = Some EOF"
    "err = Some EOF \<longrightarrow> length P \<le> length buf3 - n2" "P = [] \<longrightarrow> err = Some EOF"
    unfolding reads_def res prod.case by blast+
  have n': "n' = n + min (length buf - n) (length (A @ P))"
    using a(2) assms(2,4,5) by (simp add: min_def)
  have d: "n' - n = length A + (n' - n2)" using a(2) assms(4) by simp
  have t: "take n' buf' = take n buf @ take (n' - n) (A @ P)"
    using a(3) assms(3) unfolding d by simp
  have p: "pending st' = drop (n' - n) (A @ P)"
    using a(4) unfolding d by simp
  have e: "err = Some EOF \<longrightarrow> length (A @ P) \<le> length buf - n"
    using a(7) assms(2,4,5) by auto
  show ?thesis
    unfolding reads_def res using a(1,5,6,8) assms(2) n' t p e by simp
qed

lemma reads_full:
  assumes "length buf' = length buf" "n \<le> length buf" "take (length buf) buf' = take n buf @ A"
    "pending st' = B" "ready st'" "A @ B \<noteq> []"
  shows "reads buf n (A @ B) (buf', length buf, None, st')"
proof -
  have "length (take (length buf) buf') = length (take n buf @ A)" using assms(3) by simp
  then have la: "length A = length buf - n" using assms(1,2) by simp
  have m: "min (length buf - n) (length (A @ B)) = length buf - n" using la by simp
  show ?thesis
    unfolding reads_def prod.case m using assms la by simp
qed

lemma Read_loop_spec:
  assumes "drop (i st) (ops st) = es" "fits es (ro st) (do st) (r st)" "tmp st \<noteq> []"
    "n \<le> length buf"
  shows "\<exists>res. Read_loop buf n st = Some res \<and> reads buf n (patched es (ro st) (do st) (r st)) res"
  using assms
proof (induction es arbitrary: st buf n)
  case Nil
  then have ni: "\<not> i st < length (ops st)" by simp
  show ?case
  proof (cases "r st = []")
    case True
    have "Read_loop buf n st = Some (buf, n, Some EOF, st)"
      using True by (simp add: Read_loop_passthrough[OF ni] bytes_Read_def store_nil)
    moreover have "reads buf n [] (buf, n, Some EOF, st)"
      using Nil True by (simp add: reads_def pending_def ready_def)
    ultimately show ?thesis using True by simp
  next
    case False
    define k where "k = length buf - n"
    define st' where "st' = st\<lparr>r := drop k (r st)\<rparr>"
    have "Read_loop buf n st = Some (store buf n (take k (r st)), n + length (take k (r st)), None, st')"
      using False by (simp add: Read_loop_passthrough[OF ni] bytes_Read_def k_def st'_def)
    moreover have "reads buf n (r st) (store buf n (take k (r st)), n + length (take k (r st)), None, st')"
      using Nil False store_take[of n buf "take k (r st)"]
      by (simp add: reads_def pending_def ready_def st'_def store_length k_def min.commute
            take_min_length drop_min_length)
    ultimately show ?thesis by simp
  qed
next
  case (Cons e es)
  have il: "i st < length (ops st)" using Cons.prems(1)
    by (metis drop_all list.distinct(1) not_le)
  have e: "e = ops st ! i st" and es: "drop (Suc (i st)) (ops st) = es"
    using Cons.prems(1) il by (simp_all add: Cons_nth_drop_Suc[symmetric])
  from Cons.prems(2) have f: "ro st \<le> Offset e" "0 \<le> Size e" "do st \<le> length (Data e)"
    "Offset e + Size e - ro st \<le> int (length (r st))"
    "fits es (Offset e + Size e) 0 (drop (nat (Offset e + Size e - ro st)) (r st))"
    by simp_all
  have le: "Offset e - ro st \<le> int (length (r st))" using f by simp
  define nc where "nc = nat (Offset e - ro st)"
  define room where "room = length buf - n"
  define P4 where "P4 = patched es (Offset e + Size e) 0 (drop (nat (Offset e + Size e - ro st)) (r st))"
  have ncl: "nc \<le> length (r st)" using le f by (simp add: nc_def)
  have out: "patched (e # es) (ro st) (do st) (r st) = take nc (r st) @ drop (do st) (Data e) @ P4"
    by (simp add: nc_def P4_def)
  consider (a) "room < nc" | (b) "nc \<le> room" "room - nc < length (Data e) - do st"
    | (c) "nc + (length (Data e) - do st) \<le> room" by linarith
  then show ?case
  proof cases
    case a
    define st' where "st' = st\<lparr>r := drop room (r st), ro := ro st + int room\<rparr>"
    have R: "Read_loop buf n st = Some (store buf n (take room (r st)), length buf, None, st')"
      using Read_loop_preface_return[OF il e f(1) le Cons.prems(4)] a
      by (simp add: room_def nc_def st'_def)
    have lt: "length (take room (r st)) = room" using a ncl by simp
    have nn: "n + room = length buf" using Cons.prems(4) by (simp add: room_def)
    have t: "take (length buf) (store buf n (take room (r st))) = take n buf @ take room (r st)"
      using store_take[of n buf "take room (r st)"] Cons.prems(4) lt nn by simp
    have s': "drop (i st') (ops st') = e # es" "r st' = drop room (r st)" "do st' = do st"
      "tmp st' = tmp st" "ro st' = ro st + int room"
      by (simp_all add: st'_def Cons.prems(1))
    have d1: "nat (Offset e - ro st') = nc - room" using a by (simp add: s' nc_def)
    have d2: "nat (Offset e + Size e - ro st') + room = nat (Offset e + Size e - ro st)"
      using a f by (simp add: s' nc_def)
    have dd: "drop (nat (Offset e + Size e - ro st')) (r st') =
              drop (nat (Offset e + Size e - ro st)) (r st)"
      unfolding s'(2) drop_drop d2 ..
    have "pending st' = patched (e # es) (ro st') (do st') (r st')"
      by (simp add: pending_def s'(1))
    also have "\<dots> = take (nat (Offset e - ro st')) (r st') @ drop (do st') (Data e) @
        patched es (Offset e + Size e) 0 (drop (nat (Offset e + Size e - ro st')) (r st'))"
      by simp
    also have "\<dots> = take (nc - room) (drop room (r st)) @ drop (do st) (Data e) @ P4"
      unfolding d1 dd P4_def by (simp add: s'(2,3))
    also have "\<dots> = drop room (take nc (r st) @ drop (do st) (Data e) @ P4)"
      using a ncl by (simp add: drop_take)
    finally have pend: "pending st' = drop room (take nc (r st) @ drop (do st) (Data e) @ P4)" .
    have "fits (e # es) (ro st') (do st') (r st')"
      unfolding fits.simps dd using f a ncl by (simp add: s' nc_def)
    then have rdy: "ready st'"
      using Cons.prems(3) by (simp add: ready_def s')
    have ne: "r st \<noteq> []" "nc \<noteq> 0" using a ncl by auto
    have sp: "take nc (r st) = take room (r st) @ drop room (take nc (r st))"
      using a append_take_drop_id[of room "take nc (r st)"] by (simp add: min_def)
    have "reads buf n (take room (r st) @ (drop room (take nc (r st)) @ drop (do st) (Data e) @ P4))
            (store buf n (take room (r st)), length buf, None, st')"
    proof (rule reads_full)
      show "length (store buf n (take room (r st))) = length buf"
        using lt nn by (simp add: store_length)
      show "n \<le> length buf" by fact
      show "take (length buf) (store buf n (take room (r st))) = take n buf @ take room (r st)"
        by fact
      show "pending st' = drop room (take nc (r st)) @ drop (do st) (Data e) @ P4"
        using pend a ncl by simp
      show "ready st'" by fact
      show "take room (r st) @ drop room (take nc (r st)) @ drop (do st) (Data e) @ P4 \<noteq> []"
        using sp ne ncl by auto
    qed
    moreover have "take room (r st) @ (drop room (take nc (r st)) @ drop (do st) (Data e) @ P4)
        = patched (e # es) (ro st) (do st) (r st)"
      unfolding out using sp by (metis append.assoc)
    ultimately show ?thesis using R by simp
  next
    case b
    define m where "m = room - nc"
    define st' where "st' = st\<lparr>r := drop nc (r st), ro := Offset e, do := do st + m\<rparr>"
    define buf' where "buf' = store (store buf n (take nc (r st))) (n + nc) (take m (drop (do st) (Data e)))"
    have R: "Read_loop buf n st = Some (buf', length buf, None, st')"
      using Read_loop_yield_return[OF il e f(1) le Cons.prems(4) nc_def _ f(3)] b
      by (simp add: room_def st'_def buf'_def m_def)
    have l1: "length (take nc (r st)) = nc" using ncl by simp
    have l2: "length (take m (drop (do st) (Data e))) = m" using b f by (simp add: m_def)
    have nn: "n + nc + m = length buf" using Cons.prems(4) b by (simp add: room_def m_def)
    have lb1: "length (store buf n (take nc (r st))) = length buf"
      using b l1 Cons.prems(4) by (simp add: store_length room_def)
    have lb: "length buf' = length buf"
      using lb1 l2 nn by (simp add: buf'_def store_length)
    have t1: "take (n + nc) (store buf n (take nc (r st))) = take n buf @ take nc (r st)"
      using store_take[of n buf "take nc (r st)"] Cons.prems(4) l1 by simp
    have t: "take (length buf) buf' = take n buf @ take nc (r st) @ take m (drop (do st) (Data e))"
      using store_take[of "n + nc" "store buf n (take nc (r st))" "take m (drop (do st) (Data e))"]
        lb1 t1 l2 nn by (simp add: buf'_def)
    have s': "drop (i st') (ops st') = e # es" "r st' = drop nc (r st)" "do st' = do st + m"
      "tmp st' = tmp st" "ro st' = Offset e"
      by (simp_all add: st'_def Cons.prems(1))
    have d2: "nat (Offset e + Size e - ro st') + nc = nat (Offset e + Size e - ro st)"
      using f by (simp add: s' nc_def)
    have dd: "drop (nat (Offset e + Size e - ro st')) (r st') =
              drop (nat (Offset e + Size e - ro st)) (r st)"
      unfolding s'(2) drop_drop d2 ..
    have "pending st' = patched (e # es) (ro st') (do st') (r st')"
      by (simp add: pending_def s'(1))
    also have "\<dots> = take (nat (Offset e - ro st')) (r st') @ drop (do st') (Data e) @
        patched es (Offset e + Size e) 0 (drop (nat (Offset e + Size e - ro st')) (r st'))"
      by simp
    also have "\<dots> = drop (do st + m) (Data e) @ P4"
      unfolding dd P4_def by (simp add: s'(3,5))
    finally have pend: "pending st' = drop (do st + m) (Data e) @ P4" .
    have "fits (e # es) (ro st') (do st') (r st')"
      unfolding fits.simps dd using f b ncl by (simp add: s' nc_def m_def)
    then have rdy: "ready st'"
      using Cons.prems(3) by (simp add: ready_def s')
    have sp: "drop (do st) (Data e) = take m (drop (do st) (Data e)) @ drop (do st + m) (Data e)"
      using append_take_drop_id[of m "drop (do st) (Data e)"] by (simp add: add.commute)
    have ne: "drop (do st) (Data e) \<noteq> []" using b by simp
    have "reads buf n ((take nc (r st) @ take m (drop (do st) (Data e))) @ (drop (do st + m) (Data e) @ P4))
            (buf', length buf, None, st')"
    proof (rule reads_full)
      show "length buf' = length buf" by fact
      show "n \<le> length buf" by fact
      show "take (length buf) buf' = take n buf @ take nc (r st) @ take m (drop (do st) (Data e))"
        by fact
      show "pending st' = drop (do st + m) (Data e) @ P4" by fact
      show "ready st'" by fact
      show "(take nc (r st) @ take m (drop (do st) (Data e))) @ drop (do st + m) (Data e) @ P4 \<noteq> []"
        using sp ne by auto
    qed
    moreover have "(take nc (r st) @ take m (drop (do st) (Data e))) @ (drop (do st + m) (Data e) @ P4)
        = patched (e # es) (ro st) (do st) (r st)"
      unfolding out using sp by simp
    ultimately show ?thesis using R by simp
  next
    case c
    obtain buf3 st4 where n:
      "Read_loop buf n st = Read_loop buf3 (n + nc + (length (Data e) - do st)) st4"
      "length buf3 = length buf"
      "take (n + nc + (length (Data e) - do st)) buf3 = take n buf @ take nc (r st) @ drop (do st) (Data e)"
      "r st4 = drop (nat (Offset e + Size e - ro st)) (r st)"
      "ro st4 = Offset e + Size e" "ops st4 = ops st" "i st4 = Suc (i st)"
      "do st4 = 0" "tmp st4 \<noteq> []"
      using Read_loop_next[OF il e f(1) Cons.prems(4) nc_def f(3) _ f(2) f(4) Cons.prems(3)] c
      unfolding room_def by blast
    define n2 where "n2 = n + nc + (length (Data e) - do st)"
    have n2: "n2 \<le> length buf" using c Cons.prems(4) by (simp add: n2_def room_def)
    have "\<exists>res. Read_loop buf3 n2 st4 = Some res \<and> reads buf3 n2 (patched es (ro st4) (do st4) (r st4)) res"
    proof (rule Cons.IH)
      show "drop (i st4) (ops st4) = es" using n es by simp
      show "fits es (ro st4) (do st4) (r st4)" using n f by simp
      show "tmp st4 \<noteq> []" by fact
      show "n2 \<le> length buf3" using n2 n by simp
    qed
    then obtain res where res: "Read_loop buf3 n2 st4 = Some res" "reads buf3 n2 P4 res"
      using n by (auto simp: P4_def)
    have "reads buf n ((take nc (r st) @ drop (do st) (Data e)) @ P4) res"
    proof (rule reads_append[OF res(2) n(2)])
      show "take n2 buf3 = take n buf @ take nc (r st) @ drop (do st) (Data e)"
        using n(3) by (simp add: n2_def)
      show "n2 = n + length (take nc (r st) @ drop (do st) (Data e))"
        using ncl by (simp add: n2_def)
      show "n2 \<le> length buf" by fact
    qed
    with res n(1) out show ?thesis by (simp add: n2_def)
  qed
qed

section \<open>Draining the reader\<close>

lemma Read_spec:
  assumes "ready st"
  shows "\<exists>res. Read st buf = Some res \<and> reads buf 0 (pending st) res"
  using Read_loop_spec[of st "drop (i st) (ops st)" 0 buf] assms
  by (simp add: Read_def ready_def pending_def)

lemma copyBuffer_spec:
  assumes "ready st" "buf \<noteq> []"
  shows "copyBuffer w st buf = Some (w @ pending st, None)"
  using assms
proof (induction "length (pending st)" arbitrary: w st buf rule: less_induct)
  case less
  obtain buf' n' err st' where R: "Read st buf = Some (buf', n', err, st')"
    and rd: "reads buf 0 (pending st) (buf', n', err, st')"
    using Read_spec[OF less.prems(1), of buf] by (metis prod_cases4)
  from rd have a: "length buf' = length buf" "n' = min (length buf) (length (pending st))"
    "take n' buf' = take n' (pending st)" "pending st' = drop n' (pending st)" "ready st'"
    "err = None \<or> err = Some EOF" "err = Some EOF \<longrightarrow> length (pending st) \<le> length buf"
    "pending st = [] \<longrightarrow> err = Some EOF"
    unfolding reads_def prod.case by auto
  have w': "(if n' > 0 then w @ take n' buf' else w) = w @ take n' (pending st)"
    using a(3) by (cases "n' = 0") simp_all
  show ?case
  proof (cases err)
    case (Some x)
    then have "err = Some EOF" using a(6) by simp
    then have "take n' (pending st) = pending st" using a(2,7) by simp
    then show ?thesis
      apply (subst copyBuffer.simps)
      using R w' \<open>err = Some EOF\<close> by (simp add: Let_def)
  next
    case None
    then have ne: "pending st \<noteq> []" using a(8) by auto
    then have "0 < n'" using a(2) less.prems(2) by (cases buf; cases "pending st") simp_all
    then have "length (pending st') < length (pending st)" using a(4) ne by simp
    moreover have "buf' \<noteq> []" using a(1) less.prems(2) by auto
    ultimately have "copyBuffer (w @ take n' (pending st)) st' buf'
        = Some ((w @ take n' (pending st)) @ pending st', None)"
      using less.hyps a(5) by blast
    then show ?thesis
      apply (subst copyBuffer.simps)
      using R w' None a(4) by (simp add: Let_def)
  qed
qed

lemma ready_Reader: "ready (Reader es s) = fits es 0 0 s"
  by (simp add: ready_def Reader_def)

lemma pending_Reader: "pending (Reader es s) = patched es 0 0 s"
  by (simp add: pending_def Reader_def)

lemma Copy_spec: "fits es 0 0 s \<Longrightarrow> Copy es s = Some (patched es 0 0 s, None)"
  unfolding Copy_def using copyBuffer_spec[of "Reader es s" "replicate 32768 (CHR 0x00)" "[]"]
  by (simp add: ready_Reader pending_Reader)

section \<open>Unfolding the loops on given inputs\<close>

lemma discard_done:
  "\<not> (ro st < endo \<and> err = None) \<Longrightarrow> discard useP n endo err buf st = Some (buf, st, err)"
  by (subst discard.simps) auto

lemma discard_step:
  "ro st < endo \<Longrightarrow>
   discard useP n endo None buf st =
     (let m0 = nat (endo - ro st);
          cap = (if useP then length buf - n else length (tmp st));
          m = (if cap < m0 then cap else m0);
          (bs, err', s') = bytes_Read (r st) m
      in discard useP n endo err'
           (if useP then store buf n bs else buf)
           (st\<lparr>r := s', ro := ro st + int (length bs),
               tmp := (if useP then tmp st else store (tmp st) 0 bs)\<rparr>))"
  by (subst discard.simps) simp

lemma copyBuffer_step:
  "Read st buf = Some (buf', nr, er, st') \<Longrightarrow>
   copyBuffer w st buf =
     (let w' = (if nr > 0 then w @ take nr buf' else w)
      in case er of
           Some e \<Rightarrow> Some (w', if e = EOF then None else Some e)
         | None \<Rightarrow> copyBuffer w' st' buf')"
  by (subst copyBuffer.simps) simp

lemma Read_unfold:
  "Read st buf =
     (if i st < length (ops st) then
        let e = ops st ! i st in
        case preface e buf 0 st of (buf1, n1, st1, err1) \<Rightarrow>
          if err1 \<noteq> None then Some (buf1, n1, err1, st1)
          else if ro st1 < Offset e then Some (buf1, n1, None, st1)
          else if length (Data e) < do st1 then Some (buf1, n1, Some Panic, st1)
          else case yield e buf1 n1 st1 of (buf2, n2, st2) \<Rightarrow>
            if do st2 < length (Data e) then Some (buf2, n2, None, st2)
            else Option.bind
                   (discard (length (tmp st2) < length buf2 - n2) n2 (Offset e + Size e) None buf2 st2)
                   (\<lambda>(buf3, st3, err3).
                      let st4 = (if ro st3 = Offset e + Size e then st3\<lparr>i := i st3 + 1, do := 0\<rparr> else st3)
                      in if err3 \<noteq> None then Some (buf3, n2, err3, st4)
                         else Read_loop buf3 n2 st4)
      else
        case bytes_Read (r st) (length buf - 0) of (bs, err, s') \<Rightarrow>
          Some (store buf 0 bs, 0 + length bs, err, st\<lparr>r := s'\<rparr>))"
  unfolding Read_def by (subst Read_loop.simps) simp


text \<open>The invariant in the words of the specification implies \<^const>\<open>fits\<close>.\<close>

lemma ascending_disjoint_fits:
  assumes "ascending_disjoint es" "\<forall>e \<in> set es. 0 \<le> Size e \<and> Offset e + Size e - pos \<le> int (length s)"
    "es \<noteq> [] \<longrightarrow> pos \<le> Offset (hd es)"
  shows "fits es pos 0 s"
  using assms
proof (induction es arbitrary: pos s)
  case Nil
  then show ?case by simp
next
  case (Cons e es)
  show ?case
  proof (cases es)
    case Nil
    then show ?thesis using Cons.prems by simp
  next
    case (Cons e' es')
    have "fits es (Offset e + Size e) 0 (drop (nat (Offset e + Size e - pos)) s)"
    proof (rule Cons.IH)
      show "ascending_disjoint es" using Cons.prems(1) Cons by simp
      show "\<forall>x\<in>set es. 0 \<le> Size x \<and>
          Offset x + Size x - (Offset e + Size e) \<le> int (length (drop (nat (Offset e + Size e - pos)) s))"
        using Cons.prems(2,3) by auto
      show "es \<noteq> [] \<longrightarrow> Offset e + Size e \<le> Offset (hd es)"
        using Cons.prems(1) Cons by simp
    qed
    then show ?thesis using Cons.prems by simp
  qed
qed

section \<open>The claims on the patch reader\<close>

text \<open>
  Claim C5: for an empty \<^verbatim>\<open>FileOps\<close> and every source input, the empty one included, the
  fully drained output equals the input, both through \<^verbatim>\<open>FileOps.Copy\<close> and through a
  drain with any non-empty pull buffer.
\<close>

theorem identity_on_no_edits:
  "Copy [] s = Some (s, None) \<and>
   (\<forall>buf. buf \<noteq> [] \<longrightarrow> copyBuffer [] (Reader [] s) buf = Some (s, None))"
  using Copy_spec[of "[]" s] copyBuffer_spec[of "Reader [] s" _ "[]"]
  by (simp add: ready_Reader pending_Reader)

theorem identity_on_no_edits_witness:
  "Copy [] ''ABCDE'' = Some (''ABCDE'', None) \<and>
   (''?'' \<noteq> [] \<and> copyBuffer [] (Reader [] ''ABCDE'') ''?'' = Some (''ABCDE'', None)) \<and>
   Copy [] [] = Some ([], None) \<and> copyBuffer [] (Reader [] []) ''?'' = Some ([], None)"
  using identity_on_no_edits[of "''ABCDE''"] identity_on_no_edits[of "[]"] by simp









text \<open>
  Claim C1 (the code departs from it): when an edit needs source bytes beyond the end of
  the source, applying the edits must fail with an unexpected-end-of-source error. The
  code does not: for the source \<open>AB\<close> and an edit at offset 5, and for the source
  \<open>ABCDE\<close> and an edit that replaces 10 bytes at offset 2, \<^verbatim>\<open>Read\<close> passes the
  \<^verbatim>\<open>io.EOF\<close> of the source on, and \<^verbatim>\<open>FileOps.Copy\<close> returns the truncated outputs \<open>AB\<close>
  and \<open>ABxyz\<close> with a \<^verbatim>\<open>nil\<close> error. The sibling \<^verbatim>\<open>xCopy\<close> reports an error on both
  inputs, \<^verbatim>\<open>io.ErrUnexpectedEOF\<close> on the first.
\<close>

theorem Copy_reports_success_on_short_source:
  "Copy [\<lparr>Offset = 5, Size = 0, Data = ''x''\<rparr>] ''AB'' = Some (''AB'', None) \<and>
   Copy [\<lparr>Offset = 2, Size = 10, Data = ''xyz''\<rparr>] ''ABCDE'' = Some (''ABxyz'', None) \<and>
   xCopy [] ''AB'' 0 [\<lparr>Offset = 5, Size = 0, Data = ''x''\<rparr>] = (''AB'', Some ErrUnexpectedEOF) \<and>
   xCopy [] ''ABCDE'' 0 [\<lparr>Offset = 2, Size = 10, Data = ''xyz''\<rparr>] = (''ABxyz'', Some EOF)"
proof -
  let ?e = "\<lparr>Offset = 5, Size = 0, Data = ''x''\<rparr>"
  let ?f = "\<lparr>Offset = 2, Size = 10, Data = ''xyz''\<rparr>"
  let ?B = "replicate 32768 (CHR 0x00)"
  let ?B1 = "CHR ''A'' # CHR ''B'' # replicate 32766 (CHR 0x00)"
  let ?st1 = "\<lparr>r = [], ops = [?e], ro = 2, i = 0, do = 0, tmp = replicate 4096 (CHR 0x00)\<rparr>"
  let ?B2 = "CHR ''A'' # CHR ''B'' # CHR ''x'' # CHR ''y'' # CHR ''z'' # CHR ''C'' # CHR ''D''
    # CHR ''E'' # replicate 32760 (CHR 0x00)"
  let ?st2 = "\<lparr>r = [], ops = [?f], ro = 5, i = 0, do = 3, tmp = replicate 4096 (CHR 0x00)\<rparr>"
  have R1: "Read (Reader [?e] ''AB'') ?B = Some (?B1, 2, None, ?st1)"
    by (simp add: Read_unfold Reader_def preface_def bytes_Read_def store_def)
  have R2: "Read ?st1 ?B1 = Some (?B1, 0, Some EOF, ?st1)"
    by (simp add: Read_unfold preface_def bytes_Read_def store_def)
  have c1: "Copy [?e] ''AB'' = Some (''AB'', None)"
    unfolding Copy_def by (simp add: copyBuffer_step[OF R1] copyBuffer_step[OF R2])
  have R3: "Read (Reader [?f] ''ABCDE'') ?B = Some (?B2, 5, Some EOF, ?st2)"
    by (simp add: Read_unfold Reader_def preface_def yield_def bytes_Read_def store_def
        discard_step discard_done)
  have c2: "Copy [?f] ''ABCDE'' = Some (''ABxyz'', None)"
    unfolding Copy_def by (simp add: copyBuffer_step[OF R3])
  have x1: "xCopy [] ''AB'' 0 [?e] = (''AB'', Some ErrUnexpectedEOF)"
    by (simp add: CopyN_def)
  have x2: "xCopy [] ''ABCDE'' 0 [?f] = (''ABxyz'', Some EOF)"
    by (simp add: CopyN_def)
  from c1 c2 x1 x2 show ?thesis by blast
qed




text \<open>
  Claim C9 (the code departs from it): \<^verbatim>\<open>zerofill(p, maxfill)\<close> is to clear the first
  \<open>min maxfill (len p)\<close> bytes of \<open>p\<close> only. For the buffer \<open>abc\<close> and \<open>maxfill = 1\<close> the
  code clears all three bytes and returns 1.
\<close>

theorem zerofill_clears_whole_buffer:
  "zerofill ''abc'' 1 = ([CHR 0x00, CHR 0x00, CHR 0x00], 1)"
  by (simp add: zerofill_def upt_rec)



section \<open>The loop of the Exif copy\<close>

lemma foldl_errw_write: "foldl (\<lambda>a c. errw_write a (Some c)) w cs = w @ concat cs"
  by (induction cs arbitrary: w) (simp_all add: errw_write_def)


lemma scan_stop: "\<not> has l < 3 \<Longrightarrow> scan g l items = (g, l, None)"
  by (cases items) simp_all

lemma scan_Inr:
  "has l < 3 \<Longrightarrow>
   scan g l (Inr c # items) =
     (if jfifChunk l = None \<and> cmpChunkHeader c (jfifChunkHeader g) then
        scan (g\<lparr>jfifChunkHeader := c\<rparr>) (l\<lparr>has := has l + 1, nread := nread l + 1\<rparr>) items
      else if jfxxChunk l = None \<and> cmpChunkHeader c (jfxxChunkHeader g) then
        scan (g\<lparr>jfxxChunkHeader := c\<rparr>) (l\<lparr>has := has l + 1, nread := nread l + 1\<rparr>) items
      else if \<not> hasExif l \<and> cmpChunkHeader c (exifChunkHeader g) then
        scan g (l\<lparr>hasExif := True, has := has l + 1, nread := nread l + 1\<rparr>) items
      else
        scan g (l\<lparr>chunks := chunks l @ [c], nread := nread l + 1\<rparr>) items)"
  by simp

lemma scan_keeps_refl: "scan_keeps g l items g l"
  by (auto simp: scan_keeps_def)

lemma scan_keeps_jfif:
  assumes "scan_keeps (g\<lparr>jfifChunkHeader := c\<rparr>) (l\<lparr>has := h, nread := nread l + 1\<rparr>) items g' l'"
  shows "scan_keeps g l (Inr c # items) g' l'"
  using assms unfolding scan_keeps_def by auto

lemma scan_keeps_jfxx:
  assumes "scan_keeps (g\<lparr>jfxxChunkHeader := c\<rparr>) (l\<lparr>has := h, nread := nread l + 1\<rparr>) items g' l'"
  shows "scan_keeps g l (Inr c # items) g' l'"
  using assms unfolding scan_keeps_def by auto

lemma scan_keeps_exif:
  assumes "scan_keeps g (l\<lparr>hasExif := True, has := h, nread := nread l + 1\<rparr>) items g' l'"
  shows "scan_keeps g l (Inr c # items) g' l'"
  using assms unfolding scan_keeps_def by auto

lemma scan_keeps_other:
  assumes "scan_keeps g (l\<lparr>chunks := chunks l @ [c], nread := nread l + 1\<rparr>) items g' l'"
  shows "scan_keeps g l (Inr c # items) g' l'"
proof -
  from assms obtain sub where s: "chunks l' = (chunks l @ [c]) @ sub" "subseq (map Inr sub) items"
    unfolding scan_keeps_def by auto
  then have "chunks l' = chunks l @ (c # sub)"
    "subseq (map Inr (c # sub) :: (error + byte list) list) (Inr c # items)" by simp_all
  then have "\<exists>sub. chunks l' = chunks l @ sub \<and> subseq (map Inr sub :: (error + byte list) list) (Inr c # items)"
    by blast
  then show ?thesis using assms unfolding scan_keeps_def by auto
qed

lemma scan_keeps_scan:
  "scan g l items = (g', l', err) \<Longrightarrow> scan_keeps g l items g' l'"
proof (induction items arbitrary: g l)
  case Nil
  then show ?case by (simp add: scan_keeps_refl)
next
  case (Cons item items)
  show ?case
  proof (cases "has l < 3")
    case False
    then show ?thesis using Cons.prems by (simp add: scan_keeps_def)
  next
    case True
    show ?thesis
    proof (cases item)
      case (Inl e)
      then show ?thesis using Cons.prems True by (auto simp: scan_keeps_def)
    next
      case (Inr c)
      consider (jfif) "jfifChunk l = None \<and> cmpChunkHeader c (jfifChunkHeader g)"
        | (jfxx) "\<not> (jfifChunk l = None \<and> cmpChunkHeader c (jfifChunkHeader g))"
                 "jfxxChunk l = None \<and> cmpChunkHeader c (jfxxChunkHeader g)"
        | (exif) "\<not> (jfifChunk l = None \<and> cmpChunkHeader c (jfifChunkHeader g))"
                 "\<not> (jfxxChunk l = None \<and> cmpChunkHeader c (jfxxChunkHeader g))"
                 "\<not> hasExif l \<and> cmpChunkHeader c (exifChunkHeader g)"
        | (other) "\<not> (jfifChunk l = None \<and> cmpChunkHeader c (jfifChunkHeader g))"
                 "\<not> (jfxxChunk l = None \<and> cmpChunkHeader c (jfxxChunkHeader g))"
                 "\<not> (\<not> hasExif l \<and> cmpChunkHeader c (exifChunkHeader g))"
        by blast
      then show ?thesis
      proof cases
        case jfif
        then have "scan (g\<lparr>jfifChunkHeader := c\<rparr>) (l\<lparr>has := has l + 1, nread := nread l + 1\<rparr>) items = (g', l', err)"
          using Cons.prems True Inr by (auto simp add: scan_Inr simp del: scan.simps)
        from Cons.IH[OF this] show ?thesis unfolding Inr by (rule scan_keeps_jfif)
      next
        case jfxx
        then have "scan (g\<lparr>jfxxChunkHeader := c\<rparr>) (l\<lparr>has := has l + 1, nread := nread l + 1\<rparr>) items = (g', l', err)"
          using Cons.prems True Inr by (auto simp add: scan_Inr simp del: scan.simps)
        from Cons.IH[OF this] show ?thesis unfolding Inr by (rule scan_keeps_jfxx)
      next
        case exif
        then have "scan g (l\<lparr>hasExif := True, has := has l + 1, nread := nread l + 1\<rparr>) items = (g', l', err)"
          using Cons.prems True Inr by (auto simp add: scan_Inr simp del: scan.simps)
        from Cons.IH[OF this] show ?thesis unfolding Inr by (rule scan_keeps_exif)
      next
        case other
        then have "scan g (l\<lparr>chunks := chunks l @ [c], nread := nread l + 1\<rparr>) items = (g', l', err)"
          using Cons.prems True Inr by (auto simp add: scan_Inr simp del: scan.simps)
        from Cons.IH[OF this] show ?thesis unfolding Inr by (rule scan_keeps_other)
      qed
    qed
  qed
qed

lemma scan_append:
  "scan g l (map Inr pre) = (g1, l1, None) \<Longrightarrow> has l1 < 3 \<Longrightarrow>
   scan g l (map Inr pre @ rest) = scan g1 l1 rest \<and> nread l1 = nread l + length pre"
proof (induction pre arbitrary: g l)
  case Nil
  then show ?case by simp
next
  case (Cons c pre)
  have h: "has l < 3"
  proof (rule ccontr)
    assume "\<not> has l < 3"
    then show False using Cons.prems by (simp add: scan_stop)
  qed
  consider (jfif) "jfifChunk l = None \<and> cmpChunkHeader c (jfifChunkHeader g)"
    | (jfxx) "\<not> (jfifChunk l = None \<and> cmpChunkHeader c (jfifChunkHeader g))"
             "jfxxChunk l = None \<and> cmpChunkHeader c (jfxxChunkHeader g)"
    | (exif) "\<not> (jfifChunk l = None \<and> cmpChunkHeader c (jfifChunkHeader g))"
             "\<not> (jfxxChunk l = None \<and> cmpChunkHeader c (jfxxChunkHeader g))"
             "\<not> hasExif l \<and> cmpChunkHeader c (exifChunkHeader g)"
    | (other) "\<not> (jfifChunk l = None \<and> cmpChunkHeader c (jfifChunkHeader g))"
             "\<not> (jfxxChunk l = None \<and> cmpChunkHeader c (jfxxChunkHeader g))"
             "\<not> (\<not> hasExif l \<and> cmpChunkHeader c (exifChunkHeader g))"
    by blast
  then show ?case
  proof cases
    case jfif
    then have "scan (g\<lparr>jfifChunkHeader := c\<rparr>) (l\<lparr>has := has l + 1, nread := nread l + 1\<rparr>) (map Inr pre) = (g1, l1, None)"
      using Cons.prems h by (auto simp add: scan_Inr simp del: scan.simps)
    from Cons.IH[OF this Cons.prems(2)] jfif h show ?thesis
      by (auto simp add: scan_Inr simp del: scan.simps)
  next
    case jfxx
    then have "scan (g\<lparr>jfxxChunkHeader := c\<rparr>) (l\<lparr>has := has l + 1, nread := nread l + 1\<rparr>) (map Inr pre) = (g1, l1, None)"
      using Cons.prems h by (auto simp add: scan_Inr simp del: scan.simps)
    from Cons.IH[OF this Cons.prems(2)] jfxx h show ?thesis
      by (auto simp add: scan_Inr simp del: scan.simps)
  next
    case exif
    then have "scan g (l\<lparr>hasExif := True, has := has l + 1, nread := nread l + 1\<rparr>) (map Inr pre) = (g1, l1, None)"
      using Cons.prems h by (auto simp add: scan_Inr simp del: scan.simps)
    from Cons.IH[OF this Cons.prems(2)] exif h show ?thesis
      by (auto simp add: scan_Inr simp del: scan.simps)
  next
    case other
    then have "scan g (l\<lparr>chunks := chunks l @ [c], nread := nread l + 1\<rparr>) (map Inr pre) = (g1, l1, None)"
      using Cons.prems h by (auto simp add: scan_Inr simp del: scan.simps)
    from Cons.IH[OF this Cons.prems(2)] other h show ?thesis
      by (auto simp add: scan_Inr simp del: scan.simps)
  qed
qed


lemma scan_matched:
  assumes "segs j = map Inr pre @ Inr c # post"
    "scan g locals0 (map Inr pre) = (g1, l1, None)" "has l1 < 3"
    "cmpChunkHeader c (jfifChunkHeader g1) \<or> cmpChunkHeader c (jfxxChunkHeader g1)"
    "scan g locals0 (segs j) = (gf, lf, err)"
  shows "jfifChunk lf = None \<and> jfxxChunk lf = None \<and>
         subseq (map Inr (chunks lf)) (map Inr pre @ post) \<and> length pre < nread lf \<and>
         (cmpChunkHeader c (jfifChunkHeader g1) \<longrightarrow>
            jfifChunkHeader gf = c \<or> Inr (jfifChunkHeader gf) \<in> set post) \<and>
         (\<not> cmpChunkHeader c (jfifChunkHeader g1) \<longrightarrow>
            jfxxChunkHeader gf = c \<or> Inr (jfxxChunkHeader gf) \<in> set post)"
proof -
  have k1: "scan_keeps g locals0 (map Inr pre) g1 l1"
    using assms(2) by (rule scan_keeps_scan)
  then have n1: "jfifChunk l1 = None" "jfxxChunk l1 = None"
    by (simp_all add: scan_keeps_def locals0_def)
  from k1 obtain sub1 where s1: "chunks l1 = sub1" "subseq (map Inr sub1 :: (error + byte list) list) (map Inr pre)"
    by (auto simp: scan_keeps_def locals0_def)
  have a: "scan g locals0 (segs j) = scan g1 l1 (Inr c # post)" "nread l1 = length pre"
    using scan_append[OF assms(2,3), of "Inr c # post"] assms(1) by (simp_all add: locals0_def)
  define g2 where "g2 = (if cmpChunkHeader c (jfifChunkHeader g1) then g1\<lparr>jfifChunkHeader := c\<rparr>
                         else g1\<lparr>jfxxChunkHeader := c\<rparr>)"
  define l2 where "l2 = l1\<lparr>has := has l1 + 1, nread := nread l1 + 1\<rparr>"
  have "scan g1 l1 (Inr c # post) = scan g2 l2 post"
    using assms(3,4) n1 by (auto simp add: scan_Inr g2_def l2_def simp del: scan.simps)
  then have "scan g2 l2 post = (gf, lf, err)" using a assms(5) by simp
  then have k2: "scan_keeps g2 l2 post gf lf" by (rule scan_keeps_scan)
  then obtain sub2 where s2: "chunks lf = chunks l2 @ sub2" "subseq (map Inr sub2) post"
    by (auto simp: scan_keeps_def)
  have "subseq (map Inr sub1 @ map Inr sub2) (map Inr pre @ post)"
    using s1(2) s2(2) by (rule list_emb_append_mono)
  then have sq: "subseq (map Inr (chunks lf)) (map Inr pre @ post)"
    using s1(1) s2(1) by (simp add: l2_def)
  have nr: "length pre < nread lf" using k2 a(2) by (simp add: scan_keeps_def l2_def)
  have nn: "jfifChunk lf = None" "jfxxChunk lf = None"
    using k2 n1 by (simp_all add: scan_keeps_def l2_def)
  have h1: "cmpChunkHeader c (jfifChunkHeader g1) \<longrightarrow>
            jfifChunkHeader gf = c \<or> Inr (jfifChunkHeader gf) \<in> set post"
    using k2 by (auto simp: scan_keeps_def g2_def)
  have h2: "\<not> cmpChunkHeader c (jfifChunkHeader g1) \<longrightarrow>
            jfxxChunkHeader gf = c \<or> Inr (jfxxChunkHeader gf) \<in> set post"
    using k2 by (auto simp: scan_keeps_def g2_def)
  from nn sq nr h1 h2 show ?thesis by blast
qed

lemma exif_Copy_globals:
  assumes "\<forall>err. x \<noteq> Some (Inl err)" "scan g locals0 (segs j) = (gf, lf, err)"
  shows "fst (exif_Copy g w (Inr j) x wc) = gf"
proof -
  obtain exifdata where e: "(case x of None \<Rightarrow> Inr None | Some enc \<Rightarrow> enc) = Inr exifdata"
    using assms(1) by (cases x; cases "the x") auto
  show ?thesis
    unfolding exif_Copy_def sum.case e using assms(2)
    by (simp add: Let_def split: option.splits list.splits prod.splits)
qed


lemma ex_scan_pre:
  "scan globals0 locals0 (map Inr [soi_chunk]) = (globals0, locals0\<lparr>chunks := [soi_chunk], nread := 1\<rparr>, None)"
  by (simp add: soi_chunk_def globals0_def locals0_def cmpChunkHeader_def)

lemma ex_match: "cmpChunkHeader jfif_chunk (jfifChunkHeader globals0)"
  by (simp add: jfif_chunk_def globals0_def cmpChunkHeader_def upt_rec)

lemma ex_Copy:
  "exif_Copy globals0 [] (Inr jpeg_scanner) None (\<lambda>m d. ([], None))
     = (globals0\<lparr>jfifChunkHeader := jfif_chunk\<rparr>, soi_chunk @ dqt_chunk @ ''img'', None)"
  by (simp add: exif_Copy_def jpeg_scanner_def soi_chunk_def jfif_chunk_def dqt_chunk_def globals0_def locals0_def
      cmpChunkHeader_def upt_rec errw_write_def)

section \<open>The claims on the Exif copy\<close>

text \<open>
  Claim C7: \<^verbatim>\<open>exif.Copy\<close> compares each chunk with the header patterns held in the
  package-level variables and, on a match, assigns the chunk to that same variable. When
  the chunk \<open>c\<close> is matched at its turn (the loop has read the chunks \<open>pre\<close> before it
  and is still running), then after the call the variable whose value matched, be it
  \<^verbatim>\<open>jfifChunkHeader\<close> or \<^verbatim>\<open>jfxxChunkHeader\<close>, holds \<open>c\<close> or a chunk read after it, and no
  longer its original pattern. Chunks that a scanner delivers differ from the two
  patterns, whose length bytes are the placeholder \<open>--\<close>; \<open>x\<close> does not fail to encode,
  since the call returns before the loop otherwise.
\<close>

theorem Copy_reassigns_shared_header:
  assumes "segs j = map Inr pre @ Inr c # post"
    "scan g locals0 (map Inr pre) = (g1, l1, None)" "has l1 < 3"
    "cmpChunkHeader c (jfifChunkHeader g1) \<or> cmpChunkHeader c (jfxxChunkHeader g1)"
    "\<forall>err. x \<noteq> Some (Inl err)"
    "\<forall>d. Inr d \<in> set (segs j) \<longrightarrow> d \<noteq> jfifChunkHeader globals0 \<and> d \<noteq> jfxxChunkHeader globals0"
    "g' = fst (exif_Copy g w (Inr j) x wc)"
  shows "(cmpChunkHeader c (jfifChunkHeader g1) \<longrightarrow>
            (jfifChunkHeader g' = c \<or> Inr (jfifChunkHeader g') \<in> set post) \<and>
            jfifChunkHeader g' \<noteq> jfifChunkHeader globals0) \<and>
         (\<not> cmpChunkHeader c (jfifChunkHeader g1) \<longrightarrow>
            (jfxxChunkHeader g' = c \<or> Inr (jfxxChunkHeader g') \<in> set post) \<and>
            jfxxChunkHeader g' \<noteq> jfxxChunkHeader globals0)"
proof -
  obtain gf lf err where S: "scan g locals0 (segs j) = (gf, lf, err)"
    by (metis prod_cases3)
  have g': "g' = gf" using exif_Copy_globals[OF assms(5) S] assms(7) by simp
  from scan_matched[OF assms(1,2,3,4) S] have
    h1: "cmpChunkHeader c (jfifChunkHeader g1) \<longrightarrow>
            jfifChunkHeader gf = c \<or> Inr (jfifChunkHeader gf) \<in> set post" and
    h2: "\<not> cmpChunkHeader c (jfifChunkHeader g1) \<longrightarrow>
            jfxxChunkHeader gf = c \<or> Inr (jfxxChunkHeader gf) \<in> set post" by blast+
  have m: "\<And>d. d = c \<or> Inr d \<in> set post \<Longrightarrow> Inr d \<in> set (segs j)"
    using assms(1) by auto
  show ?thesis
    unfolding g' using h1 h2 m assms(6) by blast
qed

theorem Copy_reassigns_shared_header_witness:
  "exif_Copy globals0 [] (Inr jpeg_scanner) None (\<lambda>m d. ([], None))
     = (globals0\<lparr>jfifChunkHeader := jfif_chunk\<rparr>, soi_chunk @ dqt_chunk @ ''img'', None) \<and>
   cmpChunkHeader jfif_chunk (jfifChunkHeader globals0) \<and>
   jfifChunkHeader (fst (exif_Copy globals0 [] (Inr jpeg_scanner) None (\<lambda>m d. ([], None))))
     \<noteq> jfifChunkHeader globals0"
proof -
  have h1: "segs jpeg_scanner = map Inr [soi_chunk] @ Inr jfif_chunk # [Inr dqt_chunk]" by (simp add: jpeg_scanner_def)
  have h3: "has (locals0\<lparr>chunks := [soi_chunk], nread := 1\<rparr>) < 3" by (simp add: locals0_def)
  have h5: "\<forall>err. (None :: (error + byte list option) option) \<noteq> Some (Inl err)" by simp
  have h6: "\<forall>d. Inr d \<in> set (segs jpeg_scanner) \<longrightarrow>
      d \<noteq> jfifChunkHeader globals0 \<and> d \<noteq> jfxxChunkHeader globals0"
    by (auto simp: jpeg_scanner_def soi_chunk_def jfif_chunk_def dqt_chunk_def globals0_def)
  from Copy_reassigns_shared_header[OF h1 ex_scan_pre h3 _ h5 h6 refl, of "[]" "\<lambda>m d. ([], None)"]
    ex_match ex_Copy
  show ?thesis by simp
qed





end
